theory Spec2Isabelle
  imports Main
begin

unbundle bit_operations_syntax

section \<open>The fixed-width bit-set \<open>Bitset<NBits>\<close>\<close>

text \<open>
  The class template \<open>Bitset<NBits>\<close> packs \<open>NBits\<close> boolean flags into a
  \<open>std::array<underlying_t, arr_size>\<close>. The template parameter is the first argument
  \<open>N\<close> of every function below. A storage word is a \<open>nat\<close> below
  \<open>2 ^ bits_per_word N\<close>; the array is a list, least-significant word first.
  Mutating member functions take the storage and return the new one.
\<close>

subsection \<open>Compile-time constants\<close>

text \<open>\<open>underlying_t\<close> is \<open>uint64_t\<close>, \<open>uint32_t\<close>, \<open>uint16_t\<close> or \<open>uint8_t\<close>;
  \<open>bits_per_word\<close> is its number of digits.\<close>

definition bits_per_word :: "nat \<Rightarrow> nat" where
  "bits_per_word N = (if N > 32 then 64 else if N > 16 then 32 else if N > 8 then 16 else 8)"

definition all_ones :: "nat \<Rightarrow> nat" where
  "all_ones N = 2 ^ bits_per_word N - 1"

definition all_zero :: nat where
  "all_zero = 0"

text \<open>\<open>arr_size = (NBits + 63) / 64\<close> is computed in \<open>std::size_t\<close> (64 bits).\<close>

definition arr_size :: "nat \<Rightarrow> nat" where
  "arr_size N = ((N + 63) mod 2 ^ 64) div 64"

text \<open>\<open>sizeof(underlying_t)\<close> in bytes, and \<open>sizeof(storage_t)\<close>: a \<open>std::array\<close> of
  \<open>arr_size\<close> elements occupies \<open>arr_size * sizeof(underlying_t)\<close> bytes. The class has
  the single data member \<open>bits\<close>, so this is also \<open>sizeof(Bitset<NBits>)\<close>.\<close>

definition sizeof_underlying :: "nat \<Rightarrow> nat" where
  "sizeof_underlying N = bits_per_word N div 8"

definition sizeof_storage :: "nat \<Rightarrow> nat" where
  "sizeof_storage N = arr_size N * sizeof_underlying N"

definition bits_in_storage :: "nat \<Rightarrow> nat" where
  "bits_in_storage N = sizeof_storage N * 8"

text \<open>The sizes for which the class can be instantiated with a non-empty array whose
  length did not wrap around.\<close>

definition valid_size :: "nat \<Rightarrow> bool" where
  "valid_size N \<longleftrightarrow> 0 < N \<and> N + 63 < 2 ^ 64"

subsection \<open>Failures\<close>

text \<open>
  \<open>Assertion_Failed\<close> is the \<open>assert(pos < size())\<close> of \<open>get_word\<close>. The others are
  undefined behaviour of the source, made a result: an array index out of range, a shift
  of an \<open>int\<close> by 32 or more, an overflowing \<open>int\<close> subtraction, and control reaching the
  end of a function that must return a reference (the storage as the body left it is
  kept with that failure).
\<close>

datatype fault =
    Assertion_Failed
  | Out_Of_Bounds
  | Shift_Too_Wide
  | Signed_Overflow
  | Missing_Return "nat list"

subsection \<open>Integer helpers\<close>

text \<open>Conversion of an integer value to \<open>underlying_t\<close>: reduction modulo
  \<open>2 ^ bits_per_word\<close>.\<close>

definition to_underlying :: "nat \<Rightarrow> int \<Rightarrow> nat" where
  "to_underlying N i = nat (i mod 2 ^ bits_per_word N)"

text \<open>\<open>a << s\<close> and \<open>a - b\<close> on the 32-bit \<open>int\<close>. The shift is undefined for
  \<open>s \<ge> 32\<close> and otherwise wraps into the range of \<open>int\<close>; the subtraction is undefined
  when its result is outside that range.\<close>

definition int_shl :: "int \<Rightarrow> nat \<Rightarrow> fault + int" where
  "int_shl a s =
     (if 32 \<le> s then Inl Shift_Too_Wide
      else Inr ((a * 2 ^ s + 2 ^ 31) mod 2 ^ 32 - 2 ^ 31))"

definition int_sub :: "int \<Rightarrow> int \<Rightarrow> fault + int" where
  "int_sub a b =
     (if - (2 ^ 31) \<le> a - b \<and> a - b < 2 ^ 31 then Inr (a - b) else Inl Signed_Overflow)"

text \<open>\<open>std::countr_zero\<close> and \<open>std::countr_one\<close> on a word of \<open>w\<close> bits, and
  \<open>std::popcount\<close>.\<close>

fun countr_zero :: "nat \<Rightarrow> nat \<Rightarrow> nat" where
  "countr_zero 0 x = 0"
| "countr_zero (Suc w) x = (if odd x then 0 else Suc (countr_zero w (x div 2)))"


fun popcount :: "nat \<Rightarrow> nat \<Rightarrow> nat" where
  "popcount 0 x = 0"
| "popcount (Suc w) x = x mod 2 + popcount w (x div 2)"

subsection \<open>Private members\<close>

definition which_word :: "nat \<Rightarrow> nat \<Rightarrow> nat" where
  "which_word N pos = pos div bits_per_word N"

definition which_bit :: "nat \<Rightarrow> nat \<Rightarrow> nat" where
  "which_bit N pos = pos mod bits_per_word N"

text \<open>\<open>underlying_t(1) << which_bit(pos)\<close>, converted to \<open>underlying_t\<close>.\<close>

definition mask_bit :: "nat \<Rightarrow> nat \<Rightarrow> nat" where
  "mask_bit N pos = to_underlying N (push_bit (which_bit N pos) 1)"

text \<open>\<open>bits[i]\<close>.\<close>

definition word_at :: "nat list \<Rightarrow> nat \<Rightarrow> fault + nat" where
  "word_at bs i = (if i < length bs then Inr (bs ! i) else Inl Out_Of_Bounds)"

text \<open>\<open>get_word(pos)\<close> yields a reference to \<open>bits[which_word(pos)]\<close>: here the value
  read through it; a write through it updates the list at \<open>which_word N pos\<close>.\<close>

definition get_word :: "nat \<Rightarrow> nat list \<Rightarrow> nat \<Rightarrow> fault + nat" where
  "get_word N bs pos =
     (if pos < N then word_at bs (which_word N pos) else Inl Assertion_Failed)"

text \<open>\<open>arr_size - 1\<close> in \<open>std::size_t\<close>, and \<open>get_msb_word()\<close>.\<close>

definition msb_index :: "nat \<Rightarrow> nat" where
  "msb_index N = (arr_size N + (2 ^ 64 - 1)) mod 2 ^ 64"

definition get_msb_word :: "nat \<Rightarrow> nat list \<Rightarrow> fault + nat" where
  "get_msb_word N bs = word_at bs (msb_index N)"

definition to_bool :: "nat \<Rightarrow> nat \<Rightarrow> bool" where
  "to_bool N x \<longleftrightarrow> to_underlying N (int x) AND 1 \<noteq> 0"

subsection \<open>The mask of the most significant word\<close>

text \<open>\<open>(1 << (NBits % bits_per_word)) - 1\<close>: the literal \<open>1\<close> is an \<open>int\<close>, so the shift
  and the subtraction are those of \<open>int\<close>; the result is converted to \<open>underlying_t\<close>.\<close>

definition get_msb_mask :: "nat \<Rightarrow> fault + nat" where
  "get_msb_mask N =
     (if N = bits_in_storage N then Inr (all_ones N)
      else case int_shl 1 (N mod bits_per_word N) of
             Inl e \<Rightarrow> Inl e
           | Inr x \<Rightarrow> (case int_sub x 1 of
                         Inl e \<Rightarrow> Inl e
                       | Inr y \<Rightarrow> Inr (to_underlying N y)))"

text \<open>The statement \<open>get_msb_word() &= get_msb_mask();\<close> (the right operand of a
  compound assignment is evaluated first).\<close>

definition mask_msb_word :: "nat \<Rightarrow> nat list \<Rightarrow> fault + nat list" where
  "mask_msb_word N bs =
     (case get_msb_mask N of
        Inl e \<Rightarrow> Inl e
      | Inr m \<Rightarrow> (case get_msb_word N bs of
                    Inl e \<Rightarrow> Inl e
                  | Inr w \<Rightarrow> Inr (bs[msb_index N := w AND m])))"

subsection \<open>Constructors\<close>

text \<open>The default constructor (\<open>bits{0}\<close>), the constructor from one word
  (\<open>requires(NBits <= 64)\<close>) and the constructor from an array in reading order
  (\<open>requires(NBits > 64)\<close>).\<close>

definition Bitset_default :: "nat \<Rightarrow> nat list" where
  "Bitset_default N = replicate (arr_size N) 0"

definition Bitset_word :: "nat \<Rightarrow> nat \<Rightarrow> fault + nat list" where
  "Bitset_word N b = mask_msb_word N (b # replicate (arr_size N - 1) 0)"

definition Bitset_array :: "nat \<Rightarrow> nat list \<Rightarrow> fault + nat list" where
  "Bitset_array N arr = mask_msb_word N (rev arr)"

subsection \<open>Queries\<close>

definition all_b :: "nat \<Rightarrow> nat list \<Rightarrow> bool" where
  "all_b N bs = list_all (\<lambda>word. word = all_ones N) bs"

definition any_b :: "nat \<Rightarrow> nat list \<Rightarrow> bool" where
  "any_b N bs = list_ex (\<lambda>word. word \<noteq> all_zero) bs"

definition none_b :: "nat \<Rightarrow> nat list \<Rightarrow> bool" where
  "none_b N bs = list_all (\<lambda>word. word = all_zero) bs"

definition count_b :: "nat \<Rightarrow> nat list \<Rightarrow> nat" where
  "count_b N bs = foldl (\<lambda>acc word. acc + popcount (bits_per_word N) word) 0 bs"

definition size_b :: "nat \<Rightarrow> nat" where
  "size_b N = N"

text \<open>\<open>test(pos)\<close> is \<open>to_bool(get_word(pos) >> which_bit(pos))\<close>. The source declares
  \<open>test\<close> const while \<open>get_word\<close> and \<open>to_bool\<close> are not; the model follows the body.
  The \<open>assert\<close> of \<open>get_word\<close> is taken as enabled (no \<open>NDEBUG\<close>).\<close>

definition test :: "nat \<Rightarrow> nat list \<Rightarrow> nat \<Rightarrow> fault + bool" where
  "test N bs pos =
     (case get_word N bs pos of
        Inl e \<Rightarrow> Inl e
      | Inr w \<Rightarrow> Inr (to_bool N (drop_bit (which_bit N pos) w)))"

text \<open>The loops of \<open>find_first_one\<close> and \<open>find_first_zero\<close>, from index \<open>i\<close> on.\<close>

fun find_first_one_from :: "nat \<Rightarrow> nat \<Rightarrow> nat list \<Rightarrow> nat" where
  "find_first_one_from N i [] = size_b N"
| "find_first_one_from N i (word # ws) =
     (if word \<noteq> all_zero then countr_zero (bits_per_word N) word + i * bits_per_word N
      else find_first_one_from N (Suc i) ws)"

definition find_first_one :: "nat \<Rightarrow> nat list \<Rightarrow> nat" where
  "find_first_one N bs = find_first_one_from N 0 bs"



subsection \<open>Mutators\<close>

text \<open>\<open>set()\<close>, \<open>set(pos, value)\<close>, \<open>reset()\<close>, \<open>reset(pos)\<close>, \<open>flip()\<close> and
  \<open>flip(pos)\<close>. The result \<open>Inr bs'\<close> is the object after \<open>return *this\<close>.
  \<open>~mask_bit(pos)\<close> is the complement of the promoted value; the result of \<open>&=\<close> and of
  \<open>word = ~word\<close> is converted back to \<open>underlying_t\<close>. The body of \<open>flip()\<close> has no
  \<open>return\<close> statement.\<close>

definition set_bits :: "nat \<Rightarrow> nat list \<Rightarrow> fault + nat list" where
  "set_bits N bs = mask_msb_word N (map (\<lambda>word. all_ones N) bs)"

definition set_bit :: "nat \<Rightarrow> nat list \<Rightarrow> nat \<Rightarrow> bool \<Rightarrow> fault + nat list" where
  "set_bit N bs pos value =
     (case get_word N bs pos of
        Inl e \<Rightarrow> Inl e
      | Inr w \<Rightarrow>
          Inr (bs[which_word N pos :=
                 (if value then w OR mask_bit N pos
                  else to_underlying N (int w AND NOT (int (mask_bit N pos))))]))"

definition reset_bits :: "nat \<Rightarrow> nat list \<Rightarrow> fault + nat list" where
  "reset_bits N bs = Inr (map (\<lambda>word. all_zero) bs)"

definition reset_bit :: "nat \<Rightarrow> nat list \<Rightarrow> nat \<Rightarrow> fault + nat list" where
  "reset_bit N bs pos = set_bit N bs pos False"

definition flip_bits :: "nat \<Rightarrow> nat list \<Rightarrow> fault + nat list" where
  "flip_bits N bs = Inl (Missing_Return (map (\<lambda>word. to_underlying N (NOT (int word))) bs))"

definition flip_bit :: "nat \<Rightarrow> nat list \<Rightarrow> nat \<Rightarrow> fault + nat list" where
  "flip_bit N bs pos =
     (case get_word N bs pos of
        Inl e \<Rightarrow> Inl e
      | Inr w \<Rightarrow> Inr (bs[which_word N pos := w XOR mask_bit N pos]))"

subsection \<open>Well-formed storage and the masking invariant\<close>

text \<open>A value of type \<open>storage_t\<close>: \<open>arr_size\<close> words, each within \<open>underlying_t\<close>.\<close>

definition storage_ok :: "nat \<Rightarrow> nat list \<Rightarrow> bool" where
  "storage_ok N bs \<longleftrightarrow>
     length bs = arr_size N \<and> list_all (\<lambda>word. word < 2 ^ bits_per_word N) bs"

text \<open>The storage bit at position \<open>p\<close>, counted over the whole array, and the masking
  invariant: no storage bit at a position from \<open>N\<close> on is set.\<close>

definition storage_bit :: "nat \<Rightarrow> nat list \<Rightarrow> nat \<Rightarrow> bool" where
  "storage_bit N bs p \<longleftrightarrow> bit (bs ! (p div bits_per_word N)) (p mod bits_per_word N)"

definition msb_invariant :: "nat \<Rightarrow> nat list \<Rightarrow> bool" where
  "msb_invariant N bs \<longleftrightarrow>
     list_all (\<lambda>p. \<not> storage_bit N bs p) [N ..< length bs * bits_per_word N]"

text \<open>The number of bits of the bit-set that lie in the most significant word.\<close>

definition msb_word_bits :: "nat \<Rightarrow> nat" where
  "msb_word_bits N =
     (if N mod bits_per_word N = 0 then bits_per_word N else N mod bits_per_word N)"

subsection \<open>Sequencing\<close>

text \<open>A call on the result of an earlier call: a failure of the first ends the chain.\<close>

definition and_then :: "fault + 'a \<Rightarrow> ('a \<Rightarrow> fault + 'b) \<Rightarrow> fault + 'b" where
  "and_then r f = (case r of Inl e \<Rightarrow> Inl e | Inr x \<Rightarrow> f x)"

section \<open>Basic facts\<close>

lemma bits_per_word_cases:
  "bits_per_word N = 8 \<or> bits_per_word N = 16 \<or> bits_per_word N = 32 \<or> bits_per_word N = 64"
  by (simp add: bits_per_word_def)

lemma bits_per_word_pos: "0 < bits_per_word N"
  by (simp add: bits_per_word_def)

lemma arr_size_valid: "valid_size N \<Longrightarrow> arr_size N = (N + 63) div 64"
  by (simp add: valid_size_def arr_size_def)

lemma arr_size_pos: "valid_size N \<Longrightarrow> 0 < arr_size N"
  by (simp add: arr_size_valid div_greater_zero_iff) (simp add: valid_size_def)

lemma msb_index_valid: "valid_size N \<Longrightarrow> msb_index N = arr_size N - 1"
proof -
  assume v: "valid_size N"
  have p: "0 < arr_size N" using v by (rule arr_size_pos)
  have "arr_size N < 2 ^ 64" by (simp add: arr_size_def) 
  then have lt: "arr_size N - 1 < 2 ^ 64" by simp
  have "arr_size N + (2 ^ 64 - 1) = (arr_size N - 1) + 2 ^ 64" using p by simp
  then have "msb_index N = ((arr_size N - 1) + 2 ^ 64) mod 2 ^ 64"
    by (simp only: msb_index_def)
  also have "\<dots> = (arr_size N - 1) mod 2 ^ 64" by (simp only: mod_add_self2)
  also have "\<dots> = arr_size N - 1" using lt by (simp only: mod_less)
  finally show ?thesis .
qed

lemma which_word_bound: "valid_size N \<Longrightarrow> pos < N \<Longrightarrow> which_word N pos < arr_size N"
  by (auto simp add: arr_size_valid which_word_def bits_per_word_def valid_size_def)

lemma which_bit_bound: "which_bit N pos < bits_per_word N"
  by (simp add: which_bit_def bits_per_word_pos)

lemma to_underlying_int: "x < 2 ^ bits_per_word N \<Longrightarrow> to_underlying N (int x) = x"
  by (simp add: to_underlying_def flip: of_nat_power of_nat_mod)

lemma to_underlying_take_bit: "to_underlying N i = nat (take_bit (bits_per_word N) i)"
  by (simp add: to_underlying_def take_bit_eq_mod)

lemma mask_bit_eq: "mask_bit N pos = 2 ^ which_bit N pos"
proof -
  have "(2::nat) ^ which_bit N pos < 2 ^ bits_per_word N"
    using which_bit_bound by simp
  then have "to_underlying N (int (2 ^ which_bit N pos)) = 2 ^ which_bit N pos"
    by (rule to_underlying_int)
  then show ?thesis by (simp add: mask_bit_def)
qed

lemma bit_mask_bit: "bit (mask_bit N pos) n \<longleftrightarrow> n = which_bit N pos"
  by (auto simp add: mask_bit_eq bit_exp_iff)

lemma to_bool_odd: "to_bool N x \<longleftrightarrow> odd x"
proof -
  have "to_underlying N (int x) = take_bit (bits_per_word N) x"
    by (simp add: to_underlying_take_bit take_bit_of_nat flip: of_nat_take_bit)
  moreover have "odd (take_bit (bits_per_word N) x) \<longleftrightarrow> odd x"
    using bits_per_word_pos [of N] by (simp add: even_take_bit_eq)
  ultimately show ?thesis
    by (simp add: to_bool_def and_one_eq mod_2_eq_odd)
qed

lemma test_eq:
  "valid_size N \<Longrightarrow> length bs = arr_size N \<Longrightarrow> pos < N \<Longrightarrow>
   test N bs pos = Inr (bit (bs ! which_word N pos) (which_bit N pos))"
  by (simp add: test_def get_word_def word_at_def which_word_bound to_bool_odd bit_iff_odd_drop_bit)

lemma pos_eqI:
  "which_word N p = which_word N q \<Longrightarrow> which_bit N p = which_bit N q \<Longrightarrow> p = q"
  by (metis which_word_def which_bit_def div_mult_mod_eq)

lemma and_then_Inr: "and_then (Inr x) f = f x"
  by (simp add: and_then_def)

lemma and_then_Inl: "and_then (Inl e) f = Inl e"
  by (simp add: and_then_def)

lemma get_word_eq:
  "valid_size N \<Longrightarrow> length bs = arr_size N \<Longrightarrow> pos < N \<Longrightarrow>
   get_word N bs pos = Inr (bs ! which_word N pos)"
  by (simp add: get_word_def word_at_def which_word_bound)

lemma bit_clear_word:
  "bit (to_underlying N (int w AND NOT (int m))) n \<longleftrightarrow>
   n < bits_per_word N \<and> bit w n \<and> \<not> bit m n"
  by (auto simp add: to_underlying_take_bit bit_nat_iff bit_take_bit_iff bit_and_iff
      bit_not_iff bit_of_nat_iff_bit)

lemma set_bit_eq:
  "valid_size N \<Longrightarrow> length bs = arr_size N \<Longrightarrow> pos < N \<Longrightarrow>
   set_bit N bs pos v =
     Inr (bs[which_word N pos :=
             (if v then bs ! which_word N pos OR mask_bit N pos
              else to_underlying N (int (bs ! which_word N pos) AND NOT (int (mask_bit N pos))))])"
  by (simp add: set_bit_def get_word_eq)

lemma flip_bit_eq:
  "valid_size N \<Longrightarrow> length bs = arr_size N \<Longrightarrow> pos < N \<Longrightarrow>
   flip_bit N bs pos = Inr (bs[which_word N pos := bs ! which_word N pos XOR mask_bit N pos])"
  by (simp add: flip_bit_def get_word_eq)

lemma test_update_other:
  assumes v: "valid_size N" and len: "length bs = arr_size N"
    and pos: "pos < N" and q: "q < N" and ne: "q \<noteq> pos"
    and other: "\<And>n. n < bits_per_word N \<Longrightarrow> n \<noteq> which_bit N pos \<Longrightarrow>
                 bit x n = bit (bs ! which_word N pos) n"
  shows "test N (bs[which_word N pos := x]) q = test N bs q"
proof (cases "which_word N q = which_word N pos")
  case True
  then have "which_bit N q \<noteq> which_bit N pos"
    using ne pos_eqI by blast
  then have "bit x (which_bit N q) = bit (bs ! which_word N pos) (which_bit N q)"
    using other which_bit_bound by blast
  then show ?thesis
    using v len pos q True which_word_bound [OF v pos]
    by (simp add: test_eq)
next
  case False
  then show ?thesis
    using v len q by (simp add: test_eq)
qed

lemma test_update_same:
  assumes v: "valid_size N" and len: "length bs = arr_size N" and pos: "pos < N"
  shows "test N (bs[which_word N pos := x]) pos = Inr (bit x (which_bit N pos))"
  using v len pos which_word_bound [OF v pos] by (simp add: test_eq)

lemma frame_set_bit:
  assumes "valid_size N" "length bs = arr_size N" "pos < N" "q < N" "q \<noteq> pos"
  shows "and_then (set_bit N bs pos v) (\<lambda>b. test N b q) = test N bs q"
proof -
  have "test N (bs[which_word N pos :=
             (if v then bs ! which_word N pos OR mask_bit N pos
              else to_underlying N (int (bs ! which_word N pos) AND NOT (int (mask_bit N pos))))]) q
        = test N bs q"
    using assms by (intro test_update_other) (auto simp add: bit_or_iff bit_clear_word bit_mask_bit)
  then show ?thesis
    using assms by (simp add: set_bit_eq and_then_Inr)
qed

lemma frame_flip_bit:
  assumes "valid_size N" "length bs = arr_size N" "pos < N" "q < N" "q \<noteq> pos"
  shows "and_then (flip_bit N bs pos) (\<lambda>b. test N b q) = test N bs q"
proof -
  have "test N (bs[which_word N pos := bs ! which_word N pos XOR mask_bit N pos]) q = test N bs q"
    using assms by (intro test_update_other) (auto simp add: bit_xor_iff bit_mask_bit)
  then show ?thesis
    using assms by (simp add: flip_bit_eq and_then_Inr)
qed

lemma storage_ok_length: "storage_ok N bs \<Longrightarrow> length bs = arr_size N"
  by (simp add: storage_ok_def)

lemma storage_bit_test:
  "valid_size N \<Longrightarrow> length bs = arr_size N \<Longrightarrow> pos < N \<Longrightarrow>
   test N bs pos = Inr (storage_bit N bs pos)"
  by (simp add: test_eq storage_bit_def which_word_def which_bit_def)

lemma reset_bits_eq: "reset_bits N bs = Inr (replicate (length bs) 0)"
  by (simp add: reset_bits_def all_zero_def map_replicate_const)

section \<open>Single-bit operations\<close>

text \<open>
  Claim C4. For every size \<open>N\<close> and every position \<open>pos\<close> below \<open>N\<close>: after \<open>reset()\<close>
  and then \<open>set(pos)\<close>, \<open>test(pos)\<close> returns true and \<open>test(q)\<close> returns false for every
  other position \<open>q\<close> below \<open>N\<close>. Both calls and the test succeed, from any storage.
\<close>

theorem reset_then_set_single_bit:
  assumes v: "valid_size N" and ok: "storage_ok N bs" and pos: "pos < N" and q: "q < N"
  shows "and_then (and_then (reset_bits N bs) (\<lambda>b. set_bit N b pos True)) (\<lambda>b. test N b q)
           = Inr (q = pos)"
proof -
  let ?z = "replicate (arr_size N) (0::nat)"
  have len: "length ?z = arr_size N" by simp
  have r: "reset_bits N bs = Inr ?z"
    using ok by (simp add: reset_bits_eq storage_ok_length)
  have zero: "test N ?z p = Inr False" if "p < N" for p
    using v len that which_word_bound [OF v that] by (simp add: test_eq)
  have "and_then (set_bit N ?z pos True) (\<lambda>b. test N b q) = Inr (q = pos)"
  proof (cases "q = pos")
    case True
    have "test N (?z[which_word N pos := ?z ! which_word N pos OR mask_bit N pos]) pos
            = Inr (bit (?z ! which_word N pos OR mask_bit N pos) (which_bit N pos))"
      using v len pos by (rule test_update_same)
    then show ?thesis
      using True v len pos
      by (simp add: set_bit_eq and_then_Inr bit_or_iff bit_mask_bit del: length_replicate)
  next
    case False
    have "and_then (set_bit N ?z pos True) (\<lambda>b. test N b q) = test N ?z q"
      using v len pos q False by (rule frame_set_bit)
    then show ?thesis
      using False zero [OF q] by simp
  qed
  then show ?thesis by (simp add: r and_then_Inr)
qed

theorem reset_then_set_single_bit_witness:
  "valid_size 9 \<and> storage_ok 9 [5] \<and> (3::nat) < 9 \<and> (0::nat) < 9 \<and>
   and_then (and_then (reset_bits 9 [5]) (\<lambda>b. set_bit 9 b 3 True)) (\<lambda>b. test 9 b 3) = Inr True \<and>
   and_then (and_then (reset_bits 9 [5]) (\<lambda>b. set_bit 9 b 3 True)) (\<lambda>b. test 9 b 0) = Inr False"
proof -
  have v: "valid_size 9" by (simp add: valid_size_def)
  have s: "storage_ok 9 [5]" by (simp add: storage_ok_def arr_size_def bits_per_word_def)
  show ?thesis
    using v s reset_then_set_single_bit [OF v s, of 3 3] reset_then_set_single_bit [OF v s, of 3 0]
    by simp
qed

text \<open>
  Claim C9. A position \<open>pos \<ge> N\<close> passed to \<open>test\<close>, \<open>set(pos)\<close>, \<open>reset(pos)\<close> or
  \<open>flip(pos)\<close> ends in the failed assertion of \<open>get_word\<close>: no value is returned and
  the index is neither wrapped nor clamped. For \<open>pos < N\<close> the assertion holds, the word
  index \<open>pos / bits_per_word\<close> is within the array, and each of the four operations
  returns.
\<close>

theorem index_out_of_range_asserts:
  "(N \<le> pos \<longrightarrow>
      test N bs pos = Inl Assertion_Failed \<and>
      set_bit N bs pos v = Inl Assertion_Failed \<and>
      reset_bit N bs pos = Inl Assertion_Failed \<and>
      flip_bit N bs pos = Inl Assertion_Failed) \<and>
   (valid_size N \<and> storage_ok N bs \<and> pos < N \<longrightarrow>
      which_word N pos < length bs \<and>
      get_word N bs pos = Inr (bs ! which_word N pos) \<and>
      test N bs pos = Inr (storage_bit N bs pos) \<and>
      (\<exists>b. set_bit N bs pos v = Inr b) \<and>
      (\<exists>b. reset_bit N bs pos = Inr b) \<and>
      (\<exists>b. flip_bit N bs pos = Inr b))"
proof (intro conjI impI)
  assume "N \<le> pos"
  then have g: "get_word N bs pos = Inl Assertion_Failed"
    by (simp add: get_word_def)
  show "test N bs pos = Inl Assertion_Failed" by (simp add: test_def g)
  show "set_bit N bs pos v = Inl Assertion_Failed" by (simp add: set_bit_def g)
  show "reset_bit N bs pos = Inl Assertion_Failed" by (simp add: reset_bit_def set_bit_def g)
  show "flip_bit N bs pos = Inl Assertion_Failed" by (simp add: flip_bit_def g)
next
  assume a: "valid_size N \<and> storage_ok N bs \<and> pos < N"
  then have v: "valid_size N" and len: "length bs = arr_size N" and pos: "pos < N"
    by (simp_all add: storage_ok_length)
  show "which_word N pos < length bs"
    using which_word_bound [OF v pos] len by simp
  show "get_word N bs pos = Inr (bs ! which_word N pos)"
    using v len pos by (rule get_word_eq)
  show "test N bs pos = Inr (storage_bit N bs pos)"
    using v len pos by (rule storage_bit_test)
  show "\<exists>b. set_bit N bs pos v = Inr b"
    using v len pos by (simp add: set_bit_eq)
  show "\<exists>b. reset_bit N bs pos = Inr b"
    using v len pos by (simp add: reset_bit_def set_bit_eq)
  show "\<exists>b. flip_bit N bs pos = Inr b"
    using v len pos by (simp add: flip_bit_eq)
qed

theorem index_out_of_range_asserts_witness:
  "(9::nat) \<le> 12 \<and>
   test 9 [5] 12 = Inl Assertion_Failed \<and>
   set_bit 9 [5] 12 True = Inl Assertion_Failed \<and>
   reset_bit 9 [5] 12 = Inl Assertion_Failed \<and>
   flip_bit 9 [5] 12 = Inl Assertion_Failed \<and>
   valid_size 9 \<and> storage_ok 9 [5] \<and> (3::nat) < 9 \<and>
   which_word 9 3 < length [5::nat] \<and>
   get_word 9 [5] 3 = Inr ([5] ! which_word 9 3) \<and>
   test 9 [5] 3 = Inr (storage_bit 9 [5] 3)"
proof -
  have v: "valid_size 9" by (simp add: valid_size_def)
  have s: "storage_ok 9 [5]" by (simp add: storage_ok_def arr_size_def bits_per_word_def)
  show ?thesis
    using v s index_out_of_range_asserts [of 9 12 "[5]" True]
      index_out_of_range_asserts [of 9 3 "[5]" True]
    by simp
qed

text \<open>
  Claim C10. The single-bit mutators change no other bit: for positions \<open>pos\<close> and
  \<open>q\<close> below \<open>N\<close> with \<open>q \<noteq> pos\<close>, \<open>test(q)\<close> after \<open>set(pos, v)\<close>, after
  \<open>reset(pos)\<close> and after \<open>flip(pos)\<close> is \<open>test(q)\<close> before the call, which is the
  storage bit at \<open>q\<close>.
\<close>

theorem single_bit_mutators_frame:
  assumes "valid_size N" and "storage_ok N bs" and "pos < N" and "q < N" and "q \<noteq> pos"
  shows "and_then (set_bit N bs pos v) (\<lambda>b. test N b q) = test N bs q \<and>
         and_then (reset_bit N bs pos) (\<lambda>b. test N b q) = test N bs q \<and>
         and_then (flip_bit N bs pos) (\<lambda>b. test N b q) = test N bs q \<and>
         test N bs q = Inr (storage_bit N bs q)"
proof -
  have len: "length bs = arr_size N"
    using assms(2) by (rule storage_ok_length)
  have s: "and_then (set_bit N bs pos w) (\<lambda>b. test N b q) = test N bs q" for w
    using assms(1) len assms(3-5) by (rule frame_set_bit)
  have f: "and_then (flip_bit N bs pos) (\<lambda>b. test N b q) = test N bs q"
    using assms(1) len assms(3-5) by (rule frame_flip_bit)
  have t: "test N bs q = Inr (storage_bit N bs q)"
    using assms(1) len assms(4) by (rule storage_bit_test)
  show ?thesis
    using s [of v] s [of False] f t by (simp add: reset_bit_def)
qed

theorem single_bit_mutators_frame_witness:
  "valid_size 9 \<and> storage_ok 9 [5] \<and> (3::nat) < 9 \<and> (0::nat) < 9 \<and> (0::nat) \<noteq> 3 \<and>
   and_then (set_bit 9 [5] 3 True) (\<lambda>b. test 9 b 0) = test 9 [5] 0 \<and>
   and_then (reset_bit 9 [5] 3) (\<lambda>b. test 9 b 0) = test 9 [5] 0 \<and>
   and_then (flip_bit 9 [5] 3) (\<lambda>b. test 9 b 0) = test 9 [5] 0 \<and>
   test 9 [5] 0 = Inr (storage_bit 9 [5] 0)"
proof -
  have v: "valid_size 9" by (simp add: valid_size_def)
  have s: "storage_ok 9 [5]" by (simp add: storage_ok_def arr_size_def bits_per_word_def)
  show ?thesis
    using v s single_bit_mutators_frame [OF v s, of 3 0 True] by simp
qed

section \<open>Searching for the first one and the first zero\<close>

lemma countr_zero_first_bit:
  "k < w \<Longrightarrow> bit x k \<Longrightarrow> (\<forall>j<k. \<not> bit x j) \<Longrightarrow> countr_zero w x = k"
proof (induction w arbitrary: x k)
  case 0
  then show ?case by simp
next
  case (Suc w)
  show ?case
  proof (cases k)
    case 0
    with Suc.prems show ?thesis by (simp add: bit_0)
  next
    case (Suc k')
    have ev: "even x"
      using Suc.prems(3) Suc by (auto simp add: bit_0)
    have "countr_zero w (x div 2) = k'"
    proof (rule Suc.IH)
      show "k' < w" using Suc.prems(1) Suc by simp
      show "bit (x div 2) k'" using Suc.prems(2) Suc by (simp add: bit_Suc)
      show "\<forall>j<k'. \<not> bit (x div 2) j"
        using Suc.prems(3) Suc by (auto simp flip: bit_Suc)
    qed
    with ev Suc show ?thesis by simp
  qed
qed


lemma word_bit_bound: "x < 2 ^ w \<Longrightarrow> bit (x::nat) j \<Longrightarrow> j < w"
proof -
  assume x: "x < 2 ^ w" and b: "bit x j"
  from x have "take_bit w x = x" by (rule take_bit_nat_eq_self)
  then have "bit (take_bit w x) j" using b by simp
  then show "j < w" by (simp add: bit_take_bit_iff)
qed

lemma word_zeroI: "x < 2 ^ w \<Longrightarrow> (\<forall>j<w. \<not> bit (x::nat) j) \<Longrightarrow> x = 0"
  by (rule bit_eqI) (auto dest: word_bit_bound)


lemma find_first_one_from_none:
  "\<forall>w\<in>set ws. w = 0 \<Longrightarrow> find_first_one_from N i ws = N"
  by (induction ws arbitrary: i) (simp_all add: all_zero_def size_b_def)

lemma find_first_one_from_skip:
  "m < length ws \<Longrightarrow> \<forall>j<m. ws ! j = 0 \<Longrightarrow> ws ! m \<noteq> 0 \<Longrightarrow>
   find_first_one_from N i ws = countr_zero (bits_per_word N) (ws ! m) + (i + m) * bits_per_word N"
proof (induction ws arbitrary: i m)
  case Nil
  then show ?case by simp
next
  case (Cons w ws)
  show ?case
  proof (cases m)
    case 0
    with Cons.prems show ?thesis by (simp add: all_zero_def)
  next
    case (Suc m')
    have w0: "w = 0" using Cons.prems(2) Suc by auto
    have "find_first_one_from N (Suc i) ws =
            countr_zero (bits_per_word N) (ws ! m') + (Suc i + m') * bits_per_word N"
    proof (rule Cons.IH)
      show "m' < length ws" using Cons.prems(1) Suc by simp
      show "\<forall>j<m'. ws ! j = 0" using Cons.prems(2) Suc by auto
      show "ws ! m' \<noteq> 0" using Cons.prems(3) Suc by simp
    qed
    with w0 Suc show ?thesis by (simp add: all_zero_def)
  qed
qed



lemma which_word_compose: "b < bits_per_word N \<Longrightarrow> which_word N (j * bits_per_word N + b) = j"
  by (simp add: which_word_def)

lemma which_bit_compose: "b < bits_per_word N \<Longrightarrow> which_bit N (j * bits_per_word N + b) = b"
  by (simp add: which_bit_def)

lemma pos_decompose: "which_bit N p + which_word N p * bits_per_word N = p"
  by (simp add: which_word_def which_bit_def)

lemma storage_ok_word: "storage_ok N bs \<Longrightarrow> j < length bs \<Longrightarrow> bs ! j < 2 ^ bits_per_word N"
  by (simp add: storage_ok_def list_all_length)

lemma lowest_set_bit_found:
  assumes v: "valid_size N" and ok: "storage_ok N bs" and k: "k < N"
    and set_k: "storage_bit N bs k"
    and below: "\<forall>p<k. \<not> storage_bit N bs p"
  shows "find_first_one N bs = k"
proof -
  let ?w = "bits_per_word N"
  let ?m = "which_word N k"
  have len: "length bs = arr_size N" using ok by (rule storage_ok_length)
  have m: "?m < length bs" using which_word_bound [OF v k] len by simp
  have bitk: "bit (bs ! ?m) (which_bit N k)"
    using set_k by (simp add: storage_bit_def which_word_def which_bit_def)
  have lower: "\<not> bit (bs ! j) b" if "j * ?w + b < k" and "b < ?w" for j b
  proof -
    have "\<not> storage_bit N bs (j * ?w + b)" using below that(1) by blast
    then show ?thesis using that(2) by (simp add: storage_bit_def)
  qed
  have before: "\<forall>j<?m. bs ! j = 0"
  proof (intro allI impI)
    fix j assume j: "j < ?m"
    have "\<forall>b<?w. \<not> bit (bs ! j) b"
    proof (intro allI impI)
      fix b assume b: "b < ?w"
      have "Suc j * ?w \<le> ?m * ?w" using j by (simp only: Suc_le_eq mult_le_mono1)
      also have "\<dots> \<le> k" by (simp add: which_word_def)
      finally have "j * ?w + b < k" using b by simp
      then show "\<not> bit (bs ! j) b" using b by (rule lower)
    qed
    moreover have "bs ! j < 2 ^ ?w" using ok j m by (simp add: storage_ok_word)
    ultimately show "bs ! j = 0" by (rule word_zeroI [rotated])
  qed
  have nz: "bs ! ?m \<noteq> 0"
  proof
    assume "bs ! ?m = 0"
    then have "\<not> bit (bs ! ?m) (which_bit N k)" by simp
    then show False using bitk by simp
  qed
  have "countr_zero ?w (bs ! ?m) = which_bit N k"
  proof (rule countr_zero_first_bit)
    show "which_bit N k < ?w" by (rule which_bit_bound)
    show "bit (bs ! ?m) (which_bit N k)" by (rule bitk)
    show "\<forall>j<which_bit N k. \<not> bit (bs ! ?m) j"
    proof (intro allI impI)
      fix b assume b: "b < which_bit N k"
      then have "?m * ?w + b < which_bit N k + ?m * ?w" by simp
      then have "?m * ?w + b < k" by (simp only: pos_decompose)
      moreover have "b < ?w" using b which_bit_bound [of N k] by simp
      ultimately show "\<not> bit (bs ! ?m) b" by (rule lower)
    qed
  qed
  then have "find_first_one_from N 0 bs = which_bit N k + (0 + ?m) * ?w"
    using find_first_one_from_skip [OF m before nz, of N 0] by simp
  then show ?thesis by (simp add: find_first_one_def pos_decompose)
qed

text \<open>
  Claim C5. \<open>find_first_one()\<close> on an all-zero bit-set of size \<open>N\<close> (every storage word
  zero, as after default construction) returns \<open>N\<close>; on a bit-set whose only set bit
  among the positions below \<open>N\<close> is \<open>k\<close> it returns \<open>k\<close>. The loop scans the words
  from the least significant one and applies \<open>countr_zero\<close> to the first non-zero word
  (\<open>find_first_one_from_skip\<close>).
\<close>

theorem find_first_one_correct:
  "(none_b N bs \<longrightarrow> find_first_one N bs = N) \<and>
   find_first_one N (Bitset_default N) = N \<and>
   (valid_size N \<and> storage_ok N bs \<and> k < N \<and> (\<forall>q<N. test N bs q = Inr (q = k))
      \<longrightarrow> find_first_one N bs = k)"
proof (intro conjI impI)
  assume "none_b N bs"
  then have "\<forall>w\<in>set bs. w = 0" by (simp add: none_b_def all_zero_def list_all_iff)
  then show "find_first_one N bs = N"
    by (simp add: find_first_one_def find_first_one_from_none)
next
  have "\<forall>w\<in>set (Bitset_default N). w = 0" by (simp add: Bitset_default_def)
  then show "find_first_one N (Bitset_default N) = N"
    by (simp add: find_first_one_def find_first_one_from_none)
next
  assume a: "valid_size N \<and> storage_ok N bs \<and> k < N \<and> (\<forall>q<N. test N bs q = Inr (q = k))"
  then have v: "valid_size N" and ok: "storage_ok N bs" and k: "k < N"
    and one: "\<forall>q<N. test N bs q = Inr (q = k)"
    by simp_all
  have len: "length bs = arr_size N" using ok by (rule storage_ok_length)
  have t: "storage_bit N bs q \<longleftrightarrow> q = k" if "q < N" for q
    using one that storage_bit_test [OF v len that] by simp
  have "storage_bit N bs k" using t [OF k] by simp
  moreover have "\<forall>p<k. \<not> storage_bit N bs p"
  proof (intro allI impI)
    fix p assume "p < k"
    then have "p < N" and "p \<noteq> k" using k by simp_all
    then show "\<not> storage_bit N bs p" using t by simp
  qed
  ultimately show "find_first_one N bs = k"
    using v ok k by (intro lowest_set_bit_found)
qed

theorem find_first_one_correct_witness:
  "none_b 9 [0] \<and> find_first_one 9 [0] = 9 \<and>
   valid_size 9 \<and> storage_ok 9 [8] \<and> (3::nat) < 9 \<and>
   test 9 [8] 0 = Inr False \<and> test 9 [8] 1 = Inr False \<and> test 9 [8] 2 = Inr False \<and>
   test 9 [8] 3 = Inr True \<and> test 9 [8] 4 = Inr False \<and> test 9 [8] 5 = Inr False \<and>
   test 9 [8] 6 = Inr False \<and> test 9 [8] 7 = Inr False \<and> test 9 [8] 8 = Inr False \<and>
   find_first_one 9 [8] = 3"
proof -
  have v: "valid_size 9" by (simp add: valid_size_def)
  have s: "storage_ok 9 [8]" by (simp add: storage_ok_def arr_size_def bits_per_word_def)
  have n: "none_b 9 [0]" by (simp add: none_b_def all_zero_def)
  have e: "(8::nat) = 2 ^ 3" by simp
  have t: "\<forall>q<9. test 9 [8] q = Inr (q = 3)"
  proof (intro allI impI)
    fix q :: nat assume q: "q < 9"
    then have "which_word 9 q = 0" and "which_bit 9 q = q"
      by (simp_all add: which_word_def which_bit_def bits_per_word_def)
    moreover have "length [8::nat] = arr_size 9" by (simp add: arr_size_def)
    ultimately have "test 9 [8] q = Inr (bit (8::nat) q)"
      using test_eq [OF v _ q, of "[8]"] by simp
    then show "test 9 [8] q = Inr (q = 3)"
      by (simp only: e bit_exp_iff) auto
  qed
  note ts = t [rule_format, of 0] t [rule_format, of 1] t [rule_format, of 2]
    t [rule_format, of 3] t [rule_format, of 4] t [rule_format, of 5]
    t [rule_format, of 6] t [rule_format, of 7] t [rule_format, of 8]
  show ?thesis
    using v s n t ts find_first_one_correct [of 9 "[0]" 3] find_first_one_correct [of 9 "[8]" 3]
    by simp
qed

section \<open>The mask of the most significant word, where it is defined\<close>

lemma bits_in_storage_valid:
  "valid_size N \<Longrightarrow> bits_in_storage N = arr_size N * bits_per_word N"
  by (simp add: bits_in_storage_def sizeof_storage_def sizeof_underlying_def bits_per_word_def)

lemma single_word_full: "0 < (N::nat) \<Longrightarrow> N \<le> w \<Longrightarrow> N = w \<longleftrightarrow> N mod w = 0"
  by (cases "N = w") auto

lemma round_up_exact: "(N + 63) div 64 * 64 = N \<longleftrightarrow> N mod 64 = (0::nat)"
proof
  assume "(N + 63) div 64 * 64 = N"
  then have "N mod 64 = ((N + 63) div 64 * 64) mod 64" by simp
  then show "N mod 64 = 0" by simp
next
  assume "N mod 64 = 0"
  then obtain q where q: "N = 64 * q" by (auto simp add: mod_eq_0_iff_dvd)
  have "(64 * q + 63) div 64 = q" by simp
  then show "(N + 63) div 64 * 64 = N" using q by simp
qed

lemma full_storage_iff:
  assumes v: "valid_size N"
  shows "N = bits_in_storage N \<longleftrightarrow> N mod bits_per_word N = 0"
proof (cases "N \<le> 64")
  case True
  have N: "0 < N" using v by (simp add: valid_size_def)
  have "(N + 63) div 64 = 1" using N True by simp
  then have b: "bits_in_storage N = bits_per_word N"
    using bits_in_storage_valid [OF v] arr_size_valid [OF v] by simp
  have "N \<le> bits_per_word N" using True by (simp add: bits_per_word_def)
  then show ?thesis using N b by (simp add: single_word_full)
next
  case False
  then have w: "bits_per_word N = 64" by (simp add: bits_per_word_def)
  have "bits_in_storage N = (N + 63) div 64 * 64"
    using bits_in_storage_valid [OF v] arr_size_valid [OF v] w by simp
  then show ?thesis using w round_up_exact [of N] by auto
qed

lemma int_shl_one: "s < 31 \<Longrightarrow> int_shl 1 s = Inr (2 ^ s)"
proof -
  assume s: "s < 31"
  then have "(2::int) ^ s < 2 ^ 31" by (intro power_strict_increasing) simp_all
  then have "((2::int) ^ s + 2 ^ 31) mod 2 ^ 32 = 2 ^ s + 2 ^ 31"
    by (intro mod_pos_pos_trivial) simp_all
  then show ?thesis using s by (simp add: int_shl_def)
qed

lemma int_sub_one: "s < 31 \<Longrightarrow> int_sub (2 ^ s) 1 = Inr (2 ^ s - 1)"
proof -
  assume s: "s < 31"
  then have lt: "(2::int) ^ s < 2 ^ 31" by (intro power_strict_increasing) simp_all
  have ge: "(1::int) \<le> 2 ^ s" by simp
  have z: "(0::int) \<le> 2 ^ 31" by simp
  have a: "(2::int) ^ s - 1 < 2 ^ 31" using lt by linarith
  have b: "- (2 ^ 31) \<le> (2::int) ^ s - 1" using ge z by linarith
  show ?thesis by (simp only: int_sub_def a b simp_thms if_True)
qed

lemma to_underlying_mask:
  "s < bits_per_word N \<Longrightarrow> to_underlying N (2 ^ s - 1) = mask s"
proof -
  assume s: "s < bits_per_word N"
  have "(2::int) ^ s - 1 = int (mask s)"
    by (simp add: mask_eq_exp_minus_1 of_nat_diff)
  moreover have "(mask s :: nat) < 2 ^ bits_per_word N"
    using s by (simp add: mask_eq_exp_minus_1 less_imp_diff_less)
  ultimately show ?thesis by (simp add: to_underlying_int)
qed

lemma get_msb_mask_eq:
  assumes v: "valid_size N" and s: "N mod bits_per_word N < 31"
  shows "get_msb_mask N = Inr (mask (msb_word_bits N))"
proof (cases "N mod bits_per_word N = 0")
  case True
  then show ?thesis
    using full_storage_iff [OF v]
    by (simp add: get_msb_mask_def all_ones_def mask_eq_exp_minus_1 msb_word_bits_def)
next
  case False
  have "N mod bits_per_word N < bits_per_word N"
    by (simp add: bits_per_word_pos)
  then show ?thesis
    using False full_storage_iff [OF v] s
    by (simp add: get_msb_mask_def int_shl_one int_sub_one to_underlying_mask msb_word_bits_def)
qed

lemma mask_msb_word_eq:
  assumes v: "valid_size N" and s: "N mod bits_per_word N < 31"
    and len: "length bs = arr_size N"
  shows "mask_msb_word N bs =
           Inr (bs[arr_size N - 1 := bs ! (arr_size N - 1) AND mask (msb_word_bits N)])"
  using arr_size_pos [OF v] len
  by (simp add: mask_msb_word_def get_msb_mask_eq [OF v s] get_msb_word_def word_at_def
      msb_index_valid [OF v])

lemma which_word_top: "valid_size N \<Longrightarrow> which_word N (N - 1) = arr_size N - 1"
  by (auto simp add: which_word_def arr_size_valid bits_per_word_def valid_size_def)

lemma msb_word_bits_eq:
  assumes v: "valid_size N"
  shows "msb_word_bits N = Suc (which_bit N (N - 1))"
proof -
  have N: "0 < N" using v by (simp add: valid_size_def)
  obtain n where n: "N = Suc n" using N by (cases N) simp_all
  have "Suc n mod bits_per_word N =
          (if Suc (n mod bits_per_word N) = bits_per_word N then 0 else Suc (n mod bits_per_word N))"
    by (rule mod_Suc)
  then show ?thesis using n by (auto simp add: which_bit_def msb_word_bits_def)
qed

lemma msb_word_bits_le: "msb_word_bits N \<le> bits_per_word N"
  using bits_per_word_pos [of N] by (simp add: msb_word_bits_def less_imp_le)

lemma which_bit_top: "valid_size N \<Longrightarrow> which_bit N (N - 1) < msb_word_bits N"
  by (simp add: msb_word_bits_eq)

section \<open>Construction from an array of words\<close>

text \<open>
  Claim C7, as amended. For \<open>N > 64\<close> with \<open>N mod 64 < 31\<close> (the sizes for which the
  mask of the constructor is defined) and every array of \<open>arr_size\<close> words given in
  reading order, constructing the bit-set and reading bit \<open>N - 1\<close> with \<open>test\<close> yields
  bit \<open>(N - 1) mod 64\<close> of the first array element. This is the most significant bit
  (bit 63) of that element exactly when \<open>N\<close> is a multiple of 64.
\<close>

theorem array_constructor_top_bit:
  assumes big: "64 < N" and v: "valid_size N" and s: "N mod 64 < 31"
    and ok: "storage_ok N arr"
  shows "and_then (Bitset_array N arr) (\<lambda>b. test N b (N - 1))
           = Inr (bit (hd arr) ((N - 1) mod 64)) \<and>
         (N mod 64 = 0 \<longrightarrow>
            and_then (Bitset_array N arr) (\<lambda>b. test N b (N - 1)) = Inr (bit (hd arr) 63))"
proof -
  let ?top = "arr_size N - 1"
  let ?r = "msb_word_bits N"
  have w: "bits_per_word N = 64" using big by (simp add: bits_per_word_def)
  have len: "length arr = arr_size N" using ok by (rule storage_ok_length)
  have pos: "0 < arr_size N" using v by (rule arr_size_pos)
  have N1: "N - 1 < N" using big by simp
  have s': "N mod bits_per_word N < 31" using s w by simp
  have ne: "arr \<noteq> []" using len pos by auto
  have first: "rev arr ! ?top = hd arr"
    using len pos ne by (simp add: rev_nth hd_conv_nth)
  have c: "Bitset_array N arr = Inr ((rev arr)[?top := hd arr AND mask ?r])"
    using mask_msb_word_eq [OF v s', of "rev arr"] len first
    by (simp add: Bitset_array_def)
  have ww: "which_word N (N - 1) = ?top" using v by (rule which_word_top)
  have lr: "length (rev arr) = arr_size N" using len by simp
  have "test N ((rev arr)[which_word N (N - 1) := hd arr AND mask ?r]) (N - 1)
          = Inr (bit (hd arr AND mask ?r) (which_bit N (N - 1)))"
    using v lr N1 by (rule test_update_same)
  then have t1: "and_then (Bitset_array N arr) (\<lambda>b. test N b (N - 1))
          = Inr (bit (hd arr AND mask ?r) (which_bit N (N - 1)))"
    by (simp only: c and_then_Inr ww)
  have "bit (hd arr AND mask ?r) (which_bit N (N - 1)) = bit (hd arr) (which_bit N (N - 1))"
    using which_bit_top [OF v] by (simp only: bit_and_iff bit_mask_iff possible_bit_nat simp_thms)
  then have t: "and_then (Bitset_array N arr) (\<lambda>b. test N b (N - 1))
          = Inr (bit (hd arr) (which_bit N (N - 1)))"
    using t1 by simp
  have wb: "which_bit N (N - 1) = (N - 1) mod 64"
    by (simp add: which_bit_def w)
  have "(N - 1) mod 64 = 63" if "N mod 64 = 0"
  proof -
    from that have "64 dvd N" by (simp only: mod_eq_0_iff_dvd)
    then obtain q where q: "N = 64 * q" by (rule dvdE)
    then obtain q' where "q = Suc q'" using big by (cases q) simp_all
    then have "N - 1 = 64 * q' + 63" using q by simp
    then show ?thesis by simp
  qed
  then show ?thesis using t wb by simp
qed

theorem array_constructor_top_bit_witness:
  "(64::nat) < 65 \<and> valid_size 65 \<and> (65::nat) mod 64 < 31 \<and> storage_ok 65 [1, 0] \<and>
   and_then (Bitset_array 65 [1, 0]) (\<lambda>b. test 65 b (65 - 1)) = Inr (bit (hd [1::nat, 0]) 0) \<and>
   (64::nat) < 128 \<and> valid_size 128 \<and> (128::nat) mod 64 < 31 \<and> storage_ok 128 [2 ^ 63, 0] \<and>
   and_then (Bitset_array 128 [2 ^ 63, 0]) (\<lambda>b. test 128 b (128 - 1))
     = Inr (bit (hd [2 ^ 63 :: nat, 0]) 63)"
proof -
  have v: "valid_size 65" "valid_size 128" by (simp_all add: valid_size_def)
  have s: "storage_ok 65 [1, 0]" "storage_ok 128 [2 ^ 63, 0]"
    by (simp_all add: storage_ok_def arr_size_def bits_per_word_def)
  show ?thesis
    using v s array_constructor_top_bit [OF _ v(1) _ s(1)]
      array_constructor_top_bit [OF _ v(2) _ s(2)]
    by simp
qed

text \<open>
  The claim C7 as stated fails for \<open>Bitset<65>\<close>: the first array element
  \<open>0x8000000000000000\<close> has its most significant bit set, the constructor masks it to
  its lowest bit, and bit 64 of the bit-set reads false.
\<close>

theorem array_constructor_top_bit_counterexample:
  "Bitset_array 65 [2 ^ 63, 0] = Inr [0, 0] \<and> test 65 [0, 0] (65 - 1) = Inr False \<and>
   bit (hd [2 ^ 63, 0 :: nat]) 63"
  by (simp add: Bitset_array_def mask_msb_word_def get_msb_word_def word_at_def
      get_msb_mask_def bits_per_word_def arr_size_def sizeof_storage_def sizeof_underlying_def
      bits_in_storage_def msb_index_def int_shl_def int_sub_def to_underlying_def
      test_def get_word_def which_word_def which_bit_def to_bool_def bit_exp_iff bit_Suc_0_iff)

section \<open>Storage size\<close>

lemma arr_size_ceiling:
  assumes v: "valid_size N"
  shows "N \<le> 64 * arr_size N \<and> 64 * arr_size N < N + 64"
proof -
  have "64 * ((N + 63) div 64) + (N + 63) mod 64 = N + 63" by simp
  moreover have "(N + 63) mod 64 < 64" by simp
  ultimately have "N \<le> 64 * ((N + 63) div 64) \<and> 64 * ((N + 63) div 64) < N + 64"
    by linarith
  then show ?thesis by (simp only: arr_size_valid [OF v])
qed

text \<open>
  Claim C8, as amended. The array has \<open>ceil(N / 64)\<close> words (\<open>arr_size N\<close> is the least
  \<open>k\<close> with \<open>N \<le> 64 * k\<close>), each of \<open>bits_per_word / 8\<close> bytes: the footprint is
  \<open>8 * ceil(N / 64)\<close> bytes for \<open>N > 32\<close>, and 4, 2 and 1 bytes for \<open>N\<close> in 17..32, 9..16
  and 1..8. The witness evaluates the table of the source's static assertions.
\<close>

theorem storage_footprint:
  assumes v: "valid_size N"
  shows "length (Bitset_default N) = arr_size N \<and>
         N \<le> 64 * arr_size N \<and> 64 * arr_size N < N + 64 \<and>
         sizeof_storage N = arr_size N * (bits_per_word N div 8) \<and>
         (32 < N \<longrightarrow> sizeof_storage N = 8 * arr_size N) \<and>
         (16 < N \<and> N \<le> 32 \<longrightarrow> sizeof_storage N = 4) \<and>
         (8 < N \<and> N \<le> 16 \<longrightarrow> sizeof_storage N = 2) \<and>
         (N \<le> 8 \<longrightarrow> sizeof_storage N = 1)"
proof -
  have N: "0 < N" using v by (simp add: valid_size_def)
  have one: "arr_size N = 1" if "N \<le> 32"
    using that N by (simp add: arr_size_valid [OF v])
  have s: "sizeof_storage N = arr_size N * (bits_per_word N div 8)"
    by (simp add: sizeof_storage_def sizeof_underlying_def)
  have "32 < N \<longrightarrow> sizeof_storage N = 8 * arr_size N"
    by (simp add: s bits_per_word_def)
  moreover have "16 < N \<and> N \<le> 32 \<longrightarrow> sizeof_storage N = 4"
    using one by (simp add: s bits_per_word_def)
  moreover have "8 < N \<and> N \<le> 16 \<longrightarrow> sizeof_storage N = 2"
    using one by (simp add: s bits_per_word_def)
  moreover have "N \<le> 8 \<longrightarrow> sizeof_storage N = 1"
    using one by (simp add: s bits_per_word_def)
  moreover have "length (Bitset_default N) = arr_size N"
    by (simp add: Bitset_default_def)
  ultimately show ?thesis
    using arr_size_ceiling [OF v] s by simp
qed

theorem storage_footprint_witness:
  "valid_size 1 \<and> valid_size 8 \<and> valid_size 9 \<and> valid_size 16 \<and> valid_size 17 \<and>
   valid_size 32 \<and> valid_size 33 \<and> valid_size 64 \<and> valid_size 65 \<and> valid_size 128 \<and>
   sizeof_storage 1 = 1 \<and> sizeof_storage 8 = 1 \<and> sizeof_storage 9 = 2 \<and>
   sizeof_storage 16 = 2 \<and> sizeof_storage 17 = 4 \<and> sizeof_storage 32 = 4 \<and>
   sizeof_storage 33 = 8 \<and> sizeof_storage 64 = 8 \<and> sizeof_storage 65 = 16 \<and>
   sizeof_storage 128 = 16 \<and> arr_size 64 = 1 \<and> arr_size 65 = 2"
proof -
  have v: "valid_size 1" "valid_size 8" "valid_size 9" "valid_size 16" "valid_size 17"
    "valid_size 32" "valid_size 33" "valid_size 64" "valid_size 65" "valid_size 128"
    by (simp_all add: valid_size_def)
  show ?thesis
    using v storage_footprint [OF v(1)] storage_footprint [OF v(2)] storage_footprint [OF v(3)]
      storage_footprint [OF v(4)] storage_footprint [OF v(5)] storage_footprint [OF v(6)]
      storage_footprint [OF v(7)] storage_footprint [OF v(8)] storage_footprint [OF v(9)]
      storage_footprint [OF v(10)]
    by (simp add: arr_size_def bits_per_word_def)
qed

text \<open>
  The claim C8 as stated fails for \<open>Bitset<1>\<close>: one word of one byte, not
  \<open>8 * ceil(1 / 64) = 8\<close> bytes.
\<close>

theorem storage_footprint_counterexample:
  "arr_size 1 = 1 \<and> sizeof_storage 1 = 1 \<and> sizeof_storage 1 \<noteq> 8 * arr_size 1"
  by (simp add: arr_size_def sizeof_storage_def sizeof_underlying_def bits_per_word_def)

section \<open>The state after \<open>set()\<close>, where the mask is defined\<close>

lemma top_word_split:
  assumes v: "valid_size N"
  shows "(arr_size N - 1) * bits_per_word N + msb_word_bits N = N"
proof -
  have N: "0 < N" using v by (simp add: valid_size_def)
  have "which_bit N (N - 1) + (arr_size N - 1) * bits_per_word N = N - 1"
    using pos_decompose [of N "N - 1"] by (simp only: which_word_top [OF v])
  then have "(arr_size N - 1) * bits_per_word N + Suc (which_bit N (N - 1)) = N"
    using N by linarith
  then show ?thesis by (simp only: msb_word_bits_eq [OF v])
qed



lemma all_ones_mask: "all_ones N = mask (bits_per_word N)"
  by (simp add: all_ones_def mask_eq_exp_minus_1)




lemma set_state_bit:
  assumes v: "valid_size N" and p: "p < arr_size N * bits_per_word N"
  shows "storage_bit N ((replicate (arr_size N) (all_ones N))
           [arr_size N - 1 := mask (msb_word_bits N)]) p \<longleftrightarrow> p < N"
proof -
  let ?w = "bits_per_word N"
  let ?r = "msb_word_bits N"
  let ?top = "arr_size N - 1"
  let ?S = "(replicate (arr_size N) (all_ones N))[?top := mask ?r]"
  have j: "p div ?w < arr_size N"
    using p by (simp add: less_mult_imp_div_less)
  have b: "p mod ?w < ?w" by (simp add: bits_per_word_pos)
  have split: "?top * ?w + ?r = N" using v by (rule top_word_split)
  have dm: "p div ?w * ?w + p mod ?w = p" by simp
  show ?thesis
  proof (cases "p div ?w = ?top")
    case True
    then have "?S ! (p div ?w) = mask ?r" using j by simp
    then have "storage_bit N ?S p \<longleftrightarrow> p mod ?w < ?r"
      by (simp only: storage_bit_def bit_mask_iff possible_bit_nat simp_thms)
    moreover have "p mod ?w < ?r \<longleftrightarrow> ?top * ?w + p mod ?w < ?top * ?w + ?r"
      by (simp only: add_less_cancel_left)
    moreover have "?top * ?w + p mod ?w = p" using dm True by simp
    ultimately show ?thesis by (simp only: split)
  next
    case False
    then have lt: "Suc (p div ?w) \<le> ?top" using j by simp
    have "?S ! (p div ?w) = mask ?w" using False j by (simp add: all_ones_mask)
    then have "storage_bit N ?S p"
      using b by (simp only: storage_bit_def bit_mask_iff possible_bit_nat simp_thms)
    moreover have "p < N"
    proof -
      have "p < p div ?w * ?w + ?w" using dm b by linarith
      also have "\<dots> = Suc (p div ?w) * ?w" by simp
      also have "\<dots> \<le> ?top * ?w" using lt by (rule mult_le_mono1)
      also have "\<dots> \<le> N" using split by linarith
      finally show ?thesis .
    qed
    ultimately show ?thesis by simp
  qed
qed



lemma to_underlying_less: "to_underlying N i < 2 ^ bits_per_word N"
proof -
  have "i mod 2 ^ bits_per_word N < 2 ^ bits_per_word N" by simp
  moreover have "0 \<le> i mod 2 ^ bits_per_word N" by simp
  ultimately have "nat (i mod 2 ^ bits_per_word N) < nat (2 ^ bits_per_word N)"
    by (simp only: nat_less_eq_zless)
  then show ?thesis by (simp add: to_underlying_def nat_power_eq)
qed

lemma storage_ok_update:
  "storage_ok N bs \<Longrightarrow> x < 2 ^ bits_per_word N \<Longrightarrow> storage_ok N (bs[i := x])"
proof -
  assume ok: "storage_ok N bs" and x: "x < 2 ^ bits_per_word N"
  have "y < 2 ^ bits_per_word N" if "y \<in> set (bs[i := x])" for y
  proof -
    have "set (bs[i := x]) \<subseteq> insert x (set bs)" by (rule set_update_subset_insert)
    from this that have "y \<in> insert x (set bs)" by (rule subsetD)
    then have "y = x \<or> y \<in> set bs" by simp
    then show ?thesis using x ok by (auto simp add: storage_ok_def list_all_iff)
  qed
  then show ?thesis using ok by (simp add: storage_ok_def list_all_iff)
qed


lemma set_state_invariant:
  assumes v: "valid_size N"
  shows "msb_invariant N ((replicate (arr_size N) (all_ones N))
           [arr_size N - 1 := mask (msb_word_bits N)])"
proof -
  let ?S = "(replicate (arr_size N) (all_ones N))[arr_size N - 1 := mask (msb_word_bits N)]"
  have "\<not> storage_bit N ?S p" if "p \<in> set [N ..< length ?S * bits_per_word N]" for p
  proof -
    from that have "N \<le> p" and "p < arr_size N * bits_per_word N" by simp_all
    then show ?thesis using set_state_bit [OF v, of p] by simp
  qed
  then show ?thesis by (simp only: msb_invariant_def list_all_iff) blast
qed

lemma mask_nat_inj: "(mask a :: nat) = mask b \<Longrightarrow> a = b"
proof -
  assume e: "(mask a :: nat) = mask b"
  have "bit (mask a :: nat) n \<longleftrightarrow> bit (mask b :: nat) n" for n
    by (simp only: e)
  then have iff: "n < a \<longleftrightarrow> n < b" for n
    by (simp only: bit_mask_iff possible_bit_nat simp_thms)
  from iff [of a] iff [of b] show "a = b" by simp
qed

lemma msb_word_bits_full: "msb_word_bits N = bits_per_word N \<longleftrightarrow> N mod bits_per_word N = 0"
proof
  assume "N mod bits_per_word N = 0"
  then show "msb_word_bits N = bits_per_word N" by (simp add: msb_word_bits_def)
next
  assume e: "msb_word_bits N = bits_per_word N"
  show "N mod bits_per_word N = 0"
  proof (rule ccontr)
    assume n: "N mod bits_per_word N \<noteq> 0"
    then have "msb_word_bits N = N mod bits_per_word N" by (simp add: msb_word_bits_def)
    moreover have "N mod bits_per_word N < bits_per_word N"
      using bits_per_word_pos by (rule mod_less_divisor)
    ultimately show False using e by simp
  qed
qed

lemma set_state_all:
  assumes v: "valid_size N"
  shows "all_b N ((replicate (arr_size N) (all_ones N))
           [arr_size N - 1 := mask (msb_word_bits N)]) \<longleftrightarrow> N mod bits_per_word N = 0"
proof -
  let ?w = "bits_per_word N"
  let ?top = "arr_size N - 1"
  let ?S = "(replicate (arr_size N) (all_ones N))[?top := mask (msb_word_bits N)]"
  have top: "?top < arr_size N"
    using arr_size_pos [OF v] by simp
  have Stop: "?S ! ?top = mask (msb_word_bits N)"
    using top by simp
  have other: "?S ! i = all_ones N" if "i < arr_size N" and "i \<noteq> ?top" for i
    using that by simp
  have m: "(mask (msb_word_bits N) :: nat) = all_ones N \<longleftrightarrow> msb_word_bits N = ?w"
  proof
    assume "(mask (msb_word_bits N) :: nat) = all_ones N"
    then have "(mask (msb_word_bits N) :: nat) = mask ?w" by (simp only: all_ones_mask)
    then show "msb_word_bits N = ?w" by (rule mask_nat_inj)
  next
    assume "msb_word_bits N = ?w"
    then show "(mask (msb_word_bits N) :: nat) = all_ones N" by (simp only: all_ones_mask)
  qed
  have "all_b N ?S \<longleftrightarrow> mask (msb_word_bits N) = all_ones N"
  proof
    assume "all_b N ?S"
    then have "\<forall>n<length ?S. ?S ! n = all_ones N"
      by (simp only: all_b_def list_all_length)
    then have "\<forall>n<arr_size N. ?S ! n = all_ones N" by (simp only: length_list_update length_replicate)
    then have "?S ! ?top = all_ones N" using top by blast
    then show "mask (msb_word_bits N) = all_ones N" by (simp only: Stop)
  next
    assume a: "mask (msb_word_bits N) = all_ones N"
    have "\<forall>n<length ?S. ?S ! n = all_ones N"
    proof (intro allI impI)
      fix n assume "n < length ?S"
      then have n: "n < arr_size N" by simp
      show "?S ! n = all_ones N"
      proof (cases "n = ?top")
        case True
        then show ?thesis using Stop a by simp
      next
        case False
        with n show ?thesis by (rule other)
      qed
    qed
    then show "all_b N ?S" by (simp only: all_b_def list_all_length)
  qed
  then show ?thesis by (simp only: m msb_word_bits_full)
qed

section \<open>Preservation of the masking invariant\<close>

lemma msb_invariant_iff:
  "msb_invariant N bs \<longleftrightarrow>
     (\<forall>p. N \<le> p \<and> p < length bs * bits_per_word N \<longrightarrow> \<not> storage_bit N bs p)"
  by (simp only: msb_invariant_def list_all_iff) auto

lemma msb_invariant_update:
  assumes inv: "msb_invariant N bs" and pos: "pos < N"
    and sub: "\<forall>b. b \<noteq> which_bit N pos \<longrightarrow> bit x b \<longrightarrow> bit (bs ! which_word N pos) b"
  shows "msb_invariant N (bs[which_word N pos := x])"
proof -
  let ?w = "bits_per_word N"
  have "\<not> storage_bit N (bs[which_word N pos := x]) p"
    if p: "N \<le> p" "p < length bs * ?w" for p
  proof
    assume a: "storage_bit N (bs[which_word N pos := x]) p"
    have i: "p div ?w < length bs" using p(2) by (simp add: less_mult_imp_div_less)
    have old: "\<not> storage_bit N bs p"
      using inv p by (simp only: msb_invariant_iff) blast
    show False
    proof (cases "p div ?w = which_word N pos")
      case True
      have "p mod ?w \<noteq> which_bit N pos"
      proof
        assume "p mod ?w = which_bit N pos"
        then have "p = pos"
          using True by (rule_tac N = N in pos_eqI) (simp_all add: which_word_def which_bit_def)
        then show False using p(1) pos by simp
      qed
      moreover have "bit x (p mod ?w)"
        using a i True by (simp add: storage_bit_def)
      ultimately have "bit (bs ! which_word N pos) (p mod ?w)" using sub by blast
      then show False using old True by (simp add: storage_bit_def)
    next
      case False
      then show False using a old by (simp add: storage_bit_def)
    qed
  qed
  then show ?thesis by (simp only: msb_invariant_iff length_list_update) blast
qed

lemma word_or_less:
  assumes x: "x < 2 ^ w" and y: "y < 2 ^ w"
  shows "(x::nat) OR y < 2 ^ w"
proof -
  have "take_bit w (x OR y) = take_bit w x OR take_bit w y" by (rule take_bit_or)
  also have "\<dots> = x OR y" using x y by (simp only: take_bit_nat_eq_self)
  finally have "take_bit w (x OR y) = x OR y" .
  then show ?thesis by (simp only: take_bit_nat_eq_self_iff)
qed

lemma word_xor_less:
  assumes x: "x < 2 ^ w" and y: "y < 2 ^ w"
  shows "(x::nat) XOR y < 2 ^ w"
proof -
  have "take_bit w (x XOR y) = take_bit w x XOR take_bit w y" by (rule take_bit_xor)
  also have "\<dots> = x XOR y" using x y by (simp only: take_bit_nat_eq_self)
  finally have "take_bit w (x XOR y) = x XOR y" .
  then show ?thesis by (simp only: take_bit_nat_eq_self_iff)
qed

lemma mask_bit_less: "mask_bit N pos < 2 ^ bits_per_word N"
  using which_bit_bound [of N pos] by (simp add: mask_bit_eq)

lemma set_bit_keeps_invariant:
  assumes v: "valid_size N" and ok: "storage_ok N bs" and inv: "msb_invariant N bs"
    and pos: "pos < N"
  shows "\<exists>b. set_bit N bs pos value = Inr b \<and> storage_ok N b \<and> msb_invariant N b"
proof -
  let ?i = "which_word N pos"
  let ?x = "if value then bs ! ?i OR mask_bit N pos
            else to_underlying N (int (bs ! ?i) AND NOT (int (mask_bit N pos)))"
  have len: "length bs = arr_size N" using ok by (rule storage_ok_length)
  have i: "?i < length bs" using which_word_bound [OF v pos] len by simp
  have old: "bs ! ?i < 2 ^ bits_per_word N" using ok i by (rule storage_ok_word)
  have e: "set_bit N bs pos value = Inr (bs[?i := ?x])"
    using v len pos by (rule set_bit_eq)
  have "?x < 2 ^ bits_per_word N"
    using word_or_less [OF old mask_bit_less] to_underlying_less by simp
  then have "storage_ok N (bs[?i := ?x])" using ok by (intro storage_ok_update)
  moreover have "msb_invariant N (bs[?i := ?x])"
    using inv pos
    by (rule msb_invariant_update) (auto simp add: bit_or_iff bit_clear_word bit_mask_bit)
  ultimately show ?thesis using e by simp
qed

lemma flip_bit_keeps_invariant:
  assumes v: "valid_size N" and ok: "storage_ok N bs" and inv: "msb_invariant N bs"
    and pos: "pos < N"
  shows "\<exists>b. flip_bit N bs pos = Inr b \<and> storage_ok N b \<and> msb_invariant N b"
proof -
  let ?i = "which_word N pos"
  let ?x = "bs ! ?i XOR mask_bit N pos"
  have len: "length bs = arr_size N" using ok by (rule storage_ok_length)
  have i: "?i < length bs" using which_word_bound [OF v pos] len by simp
  have old: "bs ! ?i < 2 ^ bits_per_word N" using ok i by (rule storage_ok_word)
  have e: "flip_bit N bs pos = Inr (bs[?i := ?x])"
    using v len pos by (rule flip_bit_eq)
  have "?x < 2 ^ bits_per_word N"
    using old mask_bit_less by (rule word_xor_less)
  then have "storage_ok N (bs[?i := ?x])" using ok by (intro storage_ok_update)
  moreover have "msb_invariant N (bs[?i := ?x])"
    using inv pos
    by (rule msb_invariant_update) (auto simp add: bit_xor_iff bit_mask_bit)
  ultimately show ?thesis using e by simp
qed

lemma reset_bits_invariant:
  "storage_ok N bs \<Longrightarrow>
   \<exists>b. reset_bits N bs = Inr b \<and> storage_ok N b \<and> msb_invariant N b"
  by (simp add: reset_bits_eq storage_ok_def msb_invariant_iff storage_bit_def list_all_length
      less_mult_imp_div_less)

lemma mask_msb_word_invariant:
  assumes v: "valid_size N" and s: "N mod bits_per_word N < 31" and ok: "storage_ok N bs"
  shows "\<exists>b. mask_msb_word N bs = Inr b \<and> storage_ok N b \<and> msb_invariant N b"
proof -
  let ?w = "bits_per_word N"
  let ?top = "arr_size N - 1"
  let ?x = "bs ! ?top AND mask (msb_word_bits N)"
  have len: "length bs = arr_size N" using ok by (rule storage_ok_length)
  have top: "?top < length bs" using arr_size_pos [OF v] len by simp
  have e: "mask_msb_word N bs = Inr (bs[?top := ?x])"
    using v s len by (rule mask_msb_word_eq)
  have "?x = take_bit (msb_word_bits N) (bs ! ?top)" by (simp only: take_bit_eq_mask)
  also have "\<dots> < 2 ^ msb_word_bits N" by (rule take_bit_nat_less_exp)
  also have "\<dots> \<le> 2 ^ ?w" using msb_word_bits_le by (intro power_increasing) simp_all
  finally have "?x < 2 ^ ?w" .
  then have okb: "storage_ok N (bs[?top := ?x])" using ok by (intro storage_ok_update)
  have split: "?top * ?w + msb_word_bits N = N" using v by (rule top_word_split)
  have "\<not> storage_bit N (bs[?top := ?x]) p" if p: "N \<le> p" "p < length bs * ?w" for p
  proof -
    have dm: "p div ?w * ?w + p mod ?w = p" by simp
    have "p div ?w < arr_size N" using p(2) len by (simp add: less_mult_imp_div_less)
    moreover have "?top \<le> p div ?w"
    proof (rule ccontr)
      assume "\<not> ?top \<le> p div ?w"
      then have "Suc (p div ?w) \<le> ?top" by simp
      then have "Suc (p div ?w) * ?w \<le> ?top * ?w" by (rule mult_le_mono1)
      moreover have "p < p div ?w * ?w + ?w"
        using dm mod_less_divisor [OF bits_per_word_pos, of p N] by linarith
      ultimately have "p < ?top * ?w" by simp
      then show False using p(1) split by linarith
    qed
    ultimately have t: "p div ?w = ?top" by simp
    have "?top * ?w + msb_word_bits N \<le> ?top * ?w + p mod ?w"
      using p(1) dm t split by simp
    then have "msb_word_bits N \<le> p mod ?w" by (simp only: add_le_cancel_left)
    then have "\<not> bit ?x (p mod ?w)"
      by (simp add: bit_and_iff bit_mask_iff)
    then show ?thesis using t top by (simp add: storage_bit_def)
  qed
  then have "msb_invariant N (bs[?top := ?x])"
    by (simp only: msb_invariant_iff length_list_update) blast
  then show ?thesis using e okb by simp
qed

section \<open>Whole-set operations at concrete sizes\<close>

text \<open>Unfolding sets for evaluating the layout constants and the mask.\<close>

lemmas layout_defs = bits_per_word_def arr_size_def sizeof_storage_def sizeof_underlying_def
  bits_in_storage_def all_ones_def msb_index_def

lemmas mask_defs = get_msb_mask_def int_shl_def int_sub_def to_underlying_def
  mask_msb_word_def get_msb_word_def word_at_def

text \<open>The model agrees with the values that the source's \<open>static_assert\<close>s fix: the
  population counts of the two constructed bit-sets and the masks for 15 and 16 bits
  (the sizes and the other masks are evaluated with claims C8 and C3).\<close>

lemma popcount_numeral:
  "popcount (numeral k) x = x mod 2 + popcount (pred_numeral k) (x div 2)"
  by (simp add: numeral_eq_Suc)

lemma static_assert_count_65:
  "Bitset_array 65 [0x10000F000000000F, 0xFFFFFFFFFFFFFFFF] = Inr [0xFFFFFFFFFFFFFFFF, 1] \<and>
   count_b 65 [0xFFFFFFFFFFFFFFFF, 1] = 65"
proof -
  have "count_b 65 [0xFFFFFFFFFFFFFFFF, 1] = 65"
    by (simp only: count_b_def foldl.simps) (simp add: bits_per_word_def popcount_numeral)
  moreover have
    "Bitset_array 65 [0x10000F000000000F, 0xFFFFFFFFFFFFFFFF] = Inr [0xFFFFFFFFFFFFFFFF, 1]"
    by (simp add: Bitset_array_def mask_defs layout_defs)
  ultimately show ?thesis by (rule conjI [rotated])
qed

lemma static_assert_count_60:
  "Bitset_word 64 0x0FFFFFFFFFFFFFFF = Inr [0x0FFFFFFFFFFFFFFF] \<and>
   count_b 64 [0x0FFFFFFFFFFFFFFF] = 60"
proof -
  have "count_b 64 [0x0FFFFFFFFFFFFFFF] = 60"
    by (simp only: count_b_def foldl.simps) (simp add: bits_per_word_def popcount_numeral)
  moreover have "Bitset_word 64 0x0FFFFFFFFFFFFFFF = Inr [0x0FFFFFFFFFFFFFFF]"
    by (simp add: Bitset_word_def mask_defs layout_defs)
  ultimately show ?thesis by (rule conjI [rotated])
qed

lemma static_assert_masks:
  "get_msb_mask 15 = Inr 0x7FFF \<and> get_msb_mask 16 = Inr 0xFFFF"
  by (simp add: mask_defs layout_defs)

text \<open>For \<open>Bitset<100>\<close> the array constructor has no defined result: its mask shifts
  the \<open>int\<close> literal by 36 bits.\<close>

lemma array_constructor_undefined_for_size_100:
  "Bitset_array 100 [0, 0] = Inl Shift_Too_Wide"
  by (simp add: Bitset_array_def mask_defs layout_defs)

text \<open>
  Claim C1. The masking invariant asks that no storage bit at a position from \<open>N\<close> on
  is ever set, that \<open>set()\<close>, \<open>reset()\<close> and \<open>flip()\<close> re-establish it, and that
  \<open>flip()\<close> masks like \<open>set()\<close> and returns the object. Masking (where the mask is
  defined), \<open>reset()\<close> and the single-bit mutators keep the invariant
  (\<open>mask_msb_word_invariant\<close>,
  \<open>reset_bits_invariant\<close>, \<open>set_bit_keeps_invariant\<close>, \<open>flip_bit_keeps_invariant\<close>).
  \<open>flip()\<close> does not: it complements every word, applies no mask and reaches the end of
  its body without a \<open>return\<close>. On a default-constructed \<open>Bitset<9>\<close> it leaves the word
  \<open>0xFFFF\<close>, whose bits 9 to 15 are set, where \<open>set()\<close> leaves \<open>0x01FF\<close>.
\<close>

theorem flip_leaves_high_bits_set:
  "flip_bits 9 (Bitset_default 9) = Inl (Missing_Return [0xFFFF]) \<and>
   msb_invariant 9 (Bitset_default 9) \<and> \<not> msb_invariant 9 [0xFFFF] \<and>
   set_bits 9 (Bitset_default 9) = Inr [0x01FF] \<and> msb_invariant 9 [0x01FF]"
  by (simp add: flip_bits_def set_bits_def Bitset_default_def msb_invariant_def storage_bit_def
      mask_defs layout_defs)

text \<open>
  Claim C2. \<open>all()\<close> should be true exactly when each of the \<open>N\<close> bits is 1, also
  for sizes that are no multiple of the word width. It compares every word with the
  all-ones word, which the masked most significant word never equals for such a size
  (\<open>set_state_all\<close>). On \<open>Bitset<9>\<close> after \<open>set()\<close> the bits 0 to 8 all test true and
  \<open>all()\<close> is false.
\<close>

theorem all_false_on_full_set:
  "set_bits 9 (Bitset_default 9) = Inr [0x01FF] \<and>
   test 9 [0x01FF] 0 = Inr True \<and> test 9 [0x01FF] 1 = Inr True \<and>
   test 9 [0x01FF] 2 = Inr True \<and> test 9 [0x01FF] 3 = Inr True \<and>
   test 9 [0x01FF] 4 = Inr True \<and> test 9 [0x01FF] 5 = Inr True \<and>
   test 9 [0x01FF] 6 = Inr True \<and> test 9 [0x01FF] 7 = Inr True \<and>
   test 9 [0x01FF] 8 = Inr True \<and> all_b 9 [0x01FF] = False"
  by (simp add: set_bits_def Bitset_default_def all_b_def test_def get_word_def which_word_def
      which_bit_def to_bool_def drop_bit_eq_div mask_defs layout_defs)

text \<open>
  Claim C3. \<open>get_msb_mask()\<close> should return the all-ones word for a full storage and
  otherwise the word with exactly the low \<open>N mod bits_per_word\<close> bits set. It does for
  \<open>N mod bits_per_word < 31\<close> (\<open>get_msb_mask_eq\<close>), which covers the values 0xFF, 0x01FF,
  all ones and 0x0001 for \<open>N\<close> = 8, 9, 64 and 65. The shifted literal \<open>1\<close> is an \<open>int\<close>:
  for \<open>Bitset<33>\<close> the shift count 33 exceeds its width, and for \<open>Bitset<31>\<close> the
  subtraction from \<open>1 << 31\<close> overflows; neither has a defined result.
\<close>

theorem msb_mask_undefined_shift:
  "get_msb_mask 33 = Inl Shift_Too_Wide \<and>
   get_msb_mask 31 = Inl Signed_Overflow \<and>
   get_msb_mask 8 = Inr 0xFF \<and> get_msb_mask 9 = Inr 0x01FF \<and>
   get_msb_mask 64 = Inr 0xFFFFFFFFFFFFFFFF \<and> get_msb_mask 65 = Inr 0x0001"
  by (simp add: mask_defs layout_defs)




lemma set_undefined_for_size_33:
  "set_bits 33 (Bitset_default 33) = Inl Shift_Too_Wide"
  by (simp add: set_bits_def Bitset_default_def mask_defs layout_defs)



end
